theory Spec2Isabelle
  imports Complex_Main
begin

section \<open>Python strings\<close>

text \<open>
  A Python \<open>str\<close> is a sequence of Unicode code points. The bullet marker of
  \<open>clean_response\<close> is U+2022, beyond one byte, so a character is modelled as its code
  point (a natural number) and a string as a list of code points. \<open>ustr\<close> reads an
  ASCII literal.
\<close>

type_synonym uchar = nat
type_synonym ustring = "nat list"

definition ustr :: "string \<Rightarrow> ustring" where
  "ustr s = map of_char s"

definition NL :: uchar where
  "NL = 10"

definition SP :: uchar where
  "SP = 32"

text \<open>
  The characters Python counts as whitespace: \<open>str.strip()\<close> without argument and the
  class \<open>\s\<close> of \<open>re\<close> on a \<open>str\<close> pattern both use the interpreter's table of
  Unicode whitespace (the one behind \<open>str.isspace\<close>).
\<close>

definition isspace :: "uchar \<Rightarrow> bool" where
  "isspace c =
     ((9 \<le> c \<and> c \<le> 13) \<or> (28 \<le> c \<and> c \<le> 32) \<or> c = 133 \<or> c = 160 \<or> c = 5760
      \<or> (8192 \<le> c \<and> c \<le> 8202) \<or> c = 8232 \<or> c = 8233 \<or> c = 8239 \<or> c = 8287
      \<or> c = 12288)"

definition lstrip :: "ustring \<Rightarrow> ustring" where
  "lstrip s = dropWhile isspace s"

definition rstrip :: "ustring \<Rightarrow> ustring" where
  "rstrip s = rev (dropWhile isspace (rev s))"

definition strip :: "ustring \<Rightarrow> ustring" where
  \<comment> \<open>\<open>s.strip()\<close>\<close>
  "strip s = rstrip (lstrip s)"

fun split_nl :: "ustring \<Rightarrow> ustring list" where
  \<comment> \<open>\<open>s.split('\n')\<close>: never empty, \<open>''.split('\n') == ['']\<close>\<close>
  "split_nl [] = [[]]"
| "split_nl (c # cs) =
     (if c = NL then [] # split_nl cs
      else (case split_nl cs of [] \<Rightarrow> [[c]] | l # ls \<Rightarrow> (c # l) # ls))"

fun join_nl :: "ustring list \<Rightarrow> ustring" where
  \<comment> \<open>\<open>'\n'.join(ls)\<close>\<close>
  "join_nl [] = []"
| "join_nl [l] = l"
| "join_nl (l # ls) = l @ NL # join_nl ls"

definition startswith :: "ustring \<Rightarrow> ustring \<Rightarrow> bool" where
  \<comment> \<open>\<open>s.startswith(p)\<close>\<close>
  "startswith s p = (take (length p) s = p)"

definition endswith :: "ustring \<Rightarrow> ustring \<Rightarrow> bool" where
  \<comment> \<open>\<open>s.endswith(p)\<close>\<close>
  "endswith s p = (length p \<le> length s \<and> drop (length s - length p) s = p)"

section \<open>Regular expressions of the source\<close>

text \<open>
  \<open>re.sub(pattern, repl, s)\<close> scans \<open>s\<close> from the left. At each position it tries the
  pattern; on a match it emits \<open>repl\<close> and goes on after the match, otherwise it copies
  one character. A pattern is given here by its matcher: the length of the match at the
  head of the string, or \<open>None\<close>. The patterns of the source match at least one
  character, so the empty match (which Python treats specially) does not arise.
\<close>

function re_sub :: "(ustring \<Rightarrow> nat option) \<Rightarrow> ustring \<Rightarrow> ustring \<Rightarrow> ustring" where
  "re_sub m r [] = []"
| "re_sub m r (c # cs) =
     (case m (c # cs) of
        Some (Suc n) \<Rightarrow> r @ re_sub m r (drop n cs)
      | _ \<Rightarrow> c # re_sub m r cs)"
  by pat_completeness auto
termination
  by (relation "measure (\<lambda>(m, r, s). length s)") auto

text \<open>
  The pattern \<open>\s+\<close>: a maximal run of whitespace, at least one character.
\<close>

definition match_ws :: "ustring \<Rightarrow> nat option" where
  "match_ws s = (case takeWhile isspace s of [] \<Rightarrow> None | run \<Rightarrow> Some (length run))"

text \<open>
  The pattern \<open>\n\s*\n+\<close>. After the first newline the greedy \<open>\s*\<close> takes the whole
  whitespace run (newlines are whitespace) and gives characters back one at a time until
  \<open>\n+\<close> can match; \<open>\n+\<close> then takes every newline that follows. \<open>backtrack k cs\<close>
  is that search with \<open>\s*\<close> holding \<open>k\<close> characters of \<open>cs\<close>: the length matched after
  the first newline.
\<close>

fun backtrack :: "nat \<Rightarrow> ustring \<Rightarrow> nat option" where
  "backtrack k cs =
     (if k < length cs \<and> cs ! k = NL
      then Some (k + length (takeWhile (\<lambda>c. c = NL) (drop k cs)))
      else (case k of 0 \<Rightarrow> None | Suc j \<Rightarrow> backtrack j cs))"

definition match_blank :: "ustring \<Rightarrow> nat option" where
  "match_blank s =
     (case s of
        [] \<Rightarrow> None
      | c # cs \<Rightarrow>
          if c = NL
          then map_option Suc (backtrack (length (takeWhile isspace cs)) cs)
          else None)"

section \<open>Response Cleaner\<close>

definition markers :: "ustring list" where
  \<comment> \<open>\<open>('1.', '2.', '3.', '4.', '\<bullet>')\<close>, the bullet being U+2022\<close>
  "markers = [ustr ''1.'', ustr ''2.'', ustr ''3.'', ustr ''4.'', [8226]]"

definition is_list_line :: "ustring \<Rightarrow> bool" where
  \<comment> \<open>\<open>line.strip().startswith(('1.', '2.', '3.', '4.', '\<bullet>'))\<close>\<close>
  "is_list_line line = list_ex (startswith (strip line)) markers"

definition collapse_ws :: "ustring \<Rightarrow> ustring" where
  \<comment> \<open>\<open>re.sub(r'\s+', ' ', line)\<close>\<close>
  "collapse_ws line = re_sub match_ws [SP] line"

definition clean_line :: "ustring \<Rightarrow> ustring" where
  \<comment> \<open>one element of the list comprehension of \<open>clean_response\<close>\<close>
  "clean_line line =
     (if \<not> is_list_line line then strip (collapse_ws line) else strip line)"

definition clean_response :: "ustring \<Rightarrow> ustring" where
  "clean_response response =
     (if response = [] then response
      else
        let response = re_sub match_blank [NL, NL] (strip response);
            lines = split_nl response;
            cleaned_lines = map clean_line lines
        in strip (join_nl cleaned_lines))"


section \<open>Python values and exceptions\<close>

text \<open>
  The values that \<open>json.loads\<close> and \<open>response.json()\<close> return: \<open>None\<close>, booleans,
  integers, floats, strings, lists and dictionaries. A dictionary is an association list
  read with \<open>map_of\<close>. Floats are idealised as real numbers: rounding is not modelled.
\<close>

datatype json =
    JNull
  | JBool bool
  | JInt int
  | JFloat real
  | JStr ustring
  | JArr "json list"
  | JObj "(ustring \<times> json) list"

text \<open>
  The exceptions the source distinguishes. \<open>HTTPStatusError\<close> carries the status code and
  the body text of its response. \<open>KeyboardInterrupt\<close> and \<open>OtherBaseException\<close> (an exit
  request, for example) are not subclasses of \<open>Exception\<close>; every other constructor is.
\<close>

datatype exn =
    KeyboardInterrupt
  | OtherBaseException ustring
  | HTTPStatusError int ustring
  | RequestError ustring
  | JSONDecodeError ustring
  | EOFError
  | KeyError json
  | IndexError
  | TypeError
  | AttributeError
  | OtherException ustring

fun is_exception :: "exn \<Rightarrow> bool" where
  \<comment> \<open>\<open>isinstance(e, Exception)\<close>\<close>
  "is_exception KeyboardInterrupt = False"
| "is_exception (OtherBaseException _) = False"
| "is_exception _ = True"

definition bind :: "exn + 'a \<Rightarrow> ('a \<Rightarrow> exn + 'b) \<Rightarrow> exn + 'b" where
  \<comment> \<open>sequencing: a raised exception skips the rest\<close>
  "bind r f = (case r of Inl e \<Rightarrow> Inl e | Inr x \<Rightarrow> f x)"

fun truthy :: "json \<Rightarrow> bool" where
  \<comment> \<open>\<open>bool(v)\<close>\<close>
  "truthy JNull = False"
| "truthy (JBool b) = b"
| "truthy (JInt i) = (i \<noteq> 0)"
| "truthy (JFloat r) = (r \<noteq> 0)"
| "truthy (JStr s) = (s \<noteq> [])"
| "truthy (JArr xs) = (xs \<noteq> [])"
| "truthy (JObj kvs) = (kvs \<noteq> [])"

fun py_get :: "json \<Rightarrow> ustring \<Rightarrow> json \<Rightarrow> exn + json" where
  \<comment> \<open>\<open>d.get(key, default)\<close>: only a dictionary has \<open>get\<close>\<close>
  "py_get (JObj kvs) key dflt = Inr (case map_of kvs key of None \<Rightarrow> dflt | Some v \<Rightarrow> v)"
| "py_get _ key dflt = Inl AttributeError"

fun py_item :: "json \<Rightarrow> ustring \<Rightarrow> exn + json" where
  \<comment> \<open>\<open>d[key]\<close> with a string key\<close>
  "py_item (JObj kvs) key = (case map_of kvs key of None \<Rightarrow> Inl (KeyError (JStr key)) | Some v \<Rightarrow> Inr v)"
| "py_item _ key = Inl TypeError"

fun py_first :: "json \<Rightarrow> exn + json" where
  \<comment> \<open>\<open>x[0]\<close>; a dictionary read from JSON has string keys only\<close>
  "py_first (JArr []) = Inl IndexError"
| "py_first (JArr (x # xs)) = Inr x"
| "py_first (JStr []) = Inl IndexError"
| "py_first (JStr (c # cs)) = Inr (JStr [c])"
| "py_first (JObj kvs) = Inl (KeyError (JInt 0))"
| "py_first _ = Inl TypeError"

fun py_len :: "json \<Rightarrow> exn + nat" where
  \<comment> \<open>\<open>len(x)\<close>\<close>
  "py_len (JStr s) = Inr (length s)"
| "py_len (JArr xs) = Inr (length xs)"
| "py_len (JObj kvs) = Inr (length kvs)"
| "py_len _ = Inl TypeError"

fun py_number :: "json \<Rightarrow> exn + real" where
  \<comment> \<open>the operand of an arithmetic operator: numbers, and booleans as 0 and 1\<close>
  "py_number (JInt i) = Inr (of_int i)"
| "py_number (JFloat r) = Inr r"
| "py_number (JBool b) = Inr (if b then 1 else 0)"
| "py_number _ = Inl TypeError"

definition clean_response_value :: "json \<Rightarrow> exn + json" where
  \<comment> \<open>\<open>clean_response\<close> on whatever the envelope holds: a falsy value is returned as it
      is, a string is cleaned, anything else has no \<open>strip\<close>\<close>
  "clean_response_value response =
     (if \<not> truthy response then Inr response
      else (case response of JStr s \<Rightarrow> Inr (JStr (clean_response s)) | _ \<Rightarrow> Inl AttributeError))"

section \<open>Configuration and Cost Calculator\<close>

record config =
  GROK_3_BETA_INPUT_PRICE_PER_1K :: real
  GROK_3_BETA_OUTPUT_PRICE_PER_1K :: real
  GROK_3_MINI_BETA_INPUT_PRICE_PER_1K :: real
  GROK_3_MINI_BETA_OUTPUT_PRICE_PER_1K :: real

definition default_config :: config where
  \<comment> \<open>the prices when the environment sets none\<close>
  "default_config =
     \<lparr> GROK_3_BETA_INPUT_PRICE_PER_1K = 0.005,
       GROK_3_BETA_OUTPUT_PRICE_PER_1K = 0.015,
       GROK_3_MINI_BETA_INPUT_PRICE_PER_1K = 0.002,
       GROK_3_MINI_BETA_OUTPUT_PRICE_PER_1K = 0.006 \<rparr>"

definition cost_of :: "real \<Rightarrow> real \<Rightarrow> json \<Rightarrow> json \<Rightarrow> exn + real" where
  \<comment> \<open>lines 64 to 67 of \<open>calculate_cost\<close>\<close>
  "cost_of input_price output_price prompt_tokens completion_tokens =
     bind (py_number prompt_tokens) (\<lambda>p.
       let input_cost = (p / 1000) * input_price in
       bind (py_number completion_tokens) (\<lambda>c.
         let output_cost = (c / 1000) * output_price;
             total_cost = input_cost + output_cost
         in Inr total_cost))"

definition calculate_cost :: "config \<Rightarrow> ustring \<Rightarrow> json \<Rightarrow> json \<Rightarrow> exn + real" where
  "calculate_cost cfg model prompt_tokens completion_tokens =
     (if model = ustr ''grok-3-beta''
      then cost_of (GROK_3_BETA_INPUT_PRICE_PER_1K cfg) (GROK_3_BETA_OUTPUT_PRICE_PER_1K cfg)
             prompt_tokens completion_tokens
      else if model = ustr ''grok-3-mini-beta''
      then cost_of (GROK_3_MINI_BETA_INPUT_PRICE_PER_1K cfg) (GROK_3_MINI_BETA_OUTPUT_PRICE_PER_1K cfg)
             prompt_tokens completion_tokens
      else Inr 0)"

section \<open>Console output\<close>

text \<open>
  What the program prints, in order. An f-string is the list of its literal parts and of
  the values it interpolates. The lines of \<open>debug_log\<close> are diagnostics and are left out
  of the trace; where the argument of a \<open>debug_log\<close> call can raise, the model keeps that.
  \<open>Call_non_streaming\<close> and \<open>Call_streaming\<close> record that the loop called the API
  client.
\<close>

datatype piece =
    Lit string
  | Str ustring
  | Val json
  | Exc exn
  | TypeOf json
  | Cost real

datatype event =
    Print "piece list"
  | PrintNoEnd "piece list"
  | PrintChunk ustring
  | PrintBlank
  | PrintMarkdown ustring string
  | PrintSyntax ustring ustring
  | PrintHelp
  | Call_non_streaming ustring ustring
  | Call_streaming ustring ustring

section \<open>API Client\<close>

text \<open>
  The network is outside the program. For the blocking call, \<open>http\<close> is what
  \<open>client.post\<close>, \<open>raise_for_status\<close> and \<open>response.json()\<close> produce together: an
  exception or the decoded envelope.
\<close>

definition extract_message :: "json \<Rightarrow> exn + json \<times> json \<times> json" where
  \<comment> \<open>lines 151 to 172: the body of the \<open>try\<close> once \<open>data\<close> is there\<close>
  "extract_message data =
     bind (py_get data (ustr ''model'') (JStr (ustr ''Not specified in response''))) (\<lambda>response_model.
     bind (py_get data (ustr ''usage'') (JObj [])) (\<lambda>tokens.
     bind (py_get tokens (ustr ''prompt_tokens'') (JInt 0)) (\<lambda>prompt_tokens.
     bind (py_get tokens (ustr ''completion_tokens'') (JInt 0)) (\<lambda>completion_tokens.
     bind (py_get tokens (ustr ''total_tokens'') (JInt 0)) (\<lambda>api_total_tokens.
     bind (py_item data (ustr ''choices'')) (\<lambda>choices.
     bind (py_first choices) (\<lambda>choice.
     bind (py_item choice (ustr ''message'')) (\<lambda>message.
     bind (py_get message (ustr ''content'') (JStr [])) (\<lambda>content.
     bind (py_get message (ustr ''reasoning_content'') (JStr [])) (\<lambda>reasoning_content.
     bind (clean_response_value content) (\<lambda>content.
     bind (clean_response_value reasoning_content) (\<lambda>reasoning_content.
     bind (py_len content) (\<lambda>_.
     bind (py_len reasoning_content) (\<lambda>_.
     Inr (content, reasoning_content, tokens)))))))))))))))"

definition make_non_streaming_call ::
  "(exn + json) \<Rightarrow> ustring \<Rightarrow> ustring \<Rightarrow> (exn + json \<times> json \<times> json) \<times> event list" where
  "make_non_streaming_call http prompt model =
     (case bind http extract_message of
        Inr result \<Rightarrow> (Inr result, [])
      | Inl KeyboardInterrupt \<Rightarrow>
          (Inr (JNull, JNull, JNull), [Print [Lit ''[yellow]Request interrupted by user.[/yellow]'']])
      | Inl (HTTPStatusError status_code text) \<Rightarrow>
          (Inr (JNull, JNull, JNull),
           [Print [Lit ''[red]Error: HTTP '', Val (JInt status_code), Lit '' - '', Str text, Lit ''[/red]'']])
      | Inl (RequestError msg) \<Rightarrow>
          (Inr (JNull, JNull, JNull),
           [Print [Lit ''[red]Network error: '', Exc (RequestError msg), Lit ''[/red]'']])
      | Inl e \<Rightarrow>
          if is_exception e
          then (Inr (JNull, JNull, JNull), [Print [Lit ''[red]Error: '', Exc e, Lit ''[/red]'']])
          else (Inl e, []))"

text \<open>
  For the streaming call the wire delivers lines one by one; opening the stream,
  \<open>raise_for_status\<close> or reading the next line may raise instead (\<open>Fault\<close>).
  \<open>json.loads\<close> is a parameter: the decoded value or the exception it raises.
\<close>

datatype wire_item = Line ustring | Fault exn

definition delta_content :: "json \<Rightarrow> exn + json" where
  \<comment> \<open>\<open>data["choices"][0]["delta"].get("content", "")\<close>\<close>
  "delta_content data =
     bind (py_item data (ustr ''choices'')) (\<lambda>choices.
     bind (py_first choices) (\<lambda>choice.
     bind (py_item choice (ustr ''delta'')) (\<lambda>delta.
     py_get delta (ustr ''content'') (JStr []))))"

fun iter_chunks :: "(ustring \<Rightarrow> exn + json) \<Rightarrow> wire_item list \<Rightarrow> json list \<times> exn option" where
  \<comment> \<open>the \<open>for\<close> loop of \<open>make_streaming_call\<close>: the values yielded, in order, and the
      exception that ended the loop, if one did\<close>
  "iter_chunks loads [] = ([], None)"
| "iter_chunks loads (Fault e # rest) = ([], Some e)"
| "iter_chunks loads (Line chunk # rest) =
     (if startswith chunk (ustr ''data: '') \<and> chunk \<noteq> ustr ''data: [DONE]''
      then (case loads (drop 6 chunk) of
              Inl e \<Rightarrow> ([], Some e)
            | Inr data \<Rightarrow>
                (case py_get data (ustr ''choices'') JNull of
                   Inl e \<Rightarrow> ([], Some e)
                 | Inr choices \<Rightarrow>
                     if truthy choices
                     then (case delta_content data of
                             Inl e \<Rightarrow> ([], Some e)
                           | Inr fragment \<Rightarrow>
                               (case iter_chunks loads rest of (ys, r) \<Rightarrow> (fragment # ys, r)))
                     else iter_chunks loads rest))
      else iter_chunks loads rest)"

definition make_streaming_call ::
  "(ustring \<Rightarrow> exn + json) \<Rightarrow> wire_item list \<Rightarrow> ustring \<Rightarrow> ustring
     \<Rightarrow> json list \<times> event list \<times> exn option" where
  \<comment> \<open>the fragments yielded, what the handlers print once the generator stops, and the
      exception that escapes the generator, if one does\<close>
  "make_streaming_call loads wire prompt model =
     (case iter_chunks loads wire of
        (ys, None) \<Rightarrow> (ys, [], None)
      | (ys, Some KeyboardInterrupt) \<Rightarrow>
          (ys, [Print [Lit ''[yellow]Streaming request interrupted by user.[/yellow]'']], None)
      | (ys, Some (HTTPStatusError status_code text)) \<Rightarrow>
          (ys, [Print [Lit ''[red]Error: HTTP '', Val (JInt status_code), Lit '' - '', Str text, Lit ''[/red]'']],
           None)
      | (ys, Some (RequestError msg)) \<Rightarrow>
          (ys, [Print [Lit ''[red]Network error: '', Exc (RequestError msg), Lit ''[/red]'']], None)
      | (ys, Some e) \<Rightarrow>
          if is_exception e
          then (ys, [Print [Lit ''[red]Error: '', Exc e, Lit ''[/red]'']], None)
          else (ys, [], Some e))"

section \<open>Render Pipeline\<close>

definition fence :: ustring where
  "fence = ustr ''```''"

fun find_fence :: "ustring \<Rightarrow> nat option" where
  \<comment> \<open>where the first triple backtick starts\<close>
  "find_fence [] = None"
| "find_fence (c # cs) =
     (if startswith (c # cs) fence then Some 0 else map_option Suc (find_fence cs))"

definition match_fence :: "ustring \<Rightarrow> nat option" where
  \<comment> \<open>the pattern \<open>```.*?```\<close> with \<open>re.DOTALL\<close>: an opening fence, as few characters of
      any kind as possible, a closing fence\<close>
  "match_fence s =
     (if startswith s fence
      then map_option (\<lambda>j. 3 + j + 3) (find_fence (drop 3 s))
      else None)"

text \<open>
  \<open>re.split\<close> with one capturing group around the whole pattern: the text before the
  first match, the match, the text between, the next match, and so on, ending with the
  text after the last match. \<open>acc\<close> is the text gathered since the last match.
\<close>

function re_split :: "(ustring \<Rightarrow> nat option) \<Rightarrow> ustring \<Rightarrow> ustring \<Rightarrow> ustring list" where
  "re_split m acc [] = [acc]"
| "re_split m acc (c # cs) =
     (case m (c # cs) of
        Some (Suc n) \<Rightarrow> acc # (c # take n cs) # re_split m [] (drop n cs)
      | _ \<Rightarrow> re_split m (acc @ [c]) cs)"
  by pat_completeness auto
termination
  by (relation "measure (\<lambda>(m, acc, s). length s)") auto

definition render_part :: "ustring \<Rightarrow> event list" where
  \<comment> \<open>the body of \<open>for part in parts\<close>; \<open>part[3:-3]\<close> is empty when the part has fewer
      than six characters, and \<open>split\<close> never returns an empty list, so \<open>lines[0]\<close> is there\<close>
  "render_part part =
     (if startswith part fence \<and> endswith part fence
      then
        let code_content = strip (drop 3 (take (length part - 3) part));
            lines = split_nl code_content;
            lang = (if lines \<noteq> [] \<and> strip (hd lines) \<noteq> [] then strip (hd lines) else ustr ''text'');
            code = strip (join_nl (if strip (hd lines) \<noteq> [] then tl lines else lines))
        in if code \<noteq> [] then [PrintSyntax code lang, PrintBlank] else []
      else
        let part = clean_response part
        in if strip part \<noteq> [] then [PrintMarkdown part ''blue''] else [])"

definition render_response :: "ustring \<Rightarrow> event list" where
  \<comment> \<open>lines 295 to 308\<close>
  "render_response response = concat (map render_part (re_split match_fence [] response))"

section \<open>Interactive Loop\<close>

text \<open>
  \<open>str.lower\<close> maps the ASCII capitals to their small letters; what it does to a string
  with other characters comes from the Unicode tables and is a parameter.
\<close>

definition lower :: "(ustring \<Rightarrow> ustring) \<Rightarrow> ustring \<Rightarrow> ustring" where
  "lower unicode_lower s =
     (if list_all (\<lambda>c. c < 128) s
      then map (\<lambda>c. if 65 \<le> c \<and> c \<le> 90 then c + 32 else c) s
      else unicode_lower s)"

datatype loop_state = AwaitingInput | Exited | Terminated exn

datatype stdin = Input ustring | CtrlC | EndOfInput

record world =
  \<comment> \<open>what is outside the program during one turn\<close>
  unicode_table :: "ustring \<Rightarrow> ustring"
  post_result :: "exn + json"
  stream_wire :: "wire_item list"
  json_loads :: "ustring \<Rightarrow> exn + json"

fun consume :: "ustring \<Rightarrow> json list \<Rightarrow> (exn + ustring) \<times> event list" where
  \<comment> \<open>the \<open>for chunk in make_streaming_call(...)\<close> loop: \<open>full_response += chunk\<close> needs a
      string\<close>
  "consume full_response [] = (Inr full_response, [])"
| "consume full_response (JStr chunk # rest) =
     (case consume (full_response @ chunk) rest of (r, ev) \<Rightarrow> (r, PrintChunk chunk # ev))"
| "consume full_response (_ # rest) = (Inl TypeError, [])"

definition streaming_turn :: "world \<Rightarrow> ustring \<Rightarrow> ustring \<Rightarrow> (exn + unit) \<times> event list" where
  \<comment> \<open>lines 269 to 277\<close>
  "streaming_turn w prompt model =
     (case make_streaming_call (json_loads w) (stream_wire w) prompt model of
        (ys, printed, escaped) \<Rightarrow>
          let head = [Print [Lit ''[blue bold]>>> Grok 3 (streaming):[/blue bold]''],
                      Call_streaming prompt model]
          in (case consume [] ys of
                (Inl e, ev) \<Rightarrow> (Inl e, head @ ev)
              | (Inr full_response, ev) \<Rightarrow>
                  (case escaped of
                     Some e \<Rightarrow> (Inl e, head @ ev @ printed)
                   | None \<Rightarrow>
                       let response = clean_response full_response
                       in (Inr (), head @ ev @ printed @ [PrintBlank, PrintMarkdown response ''blue'']))))"

definition usage_line :: "config \<Rightarrow> ustring \<Rightarrow> json \<Rightarrow> (exn + unit) \<times> event list" where
  \<comment> \<open>lines 310 to 315\<close>
  "usage_line cfg model tokens =
     (if truthy tokens
      then (case bind (py_get tokens (ustr ''prompt_tokens'') (JInt 0)) (\<lambda>prompt_tokens.
                 bind (py_get tokens (ustr ''completion_tokens'') (JInt 0)) (\<lambda>completion_tokens.
                 bind (py_get tokens (ustr ''total_tokens'') (JInt 0)) (\<lambda>total_tokens.
                 bind (calculate_cost cfg model prompt_tokens completion_tokens) (\<lambda>cost.
                 Inr [Print [Lit ''[yellow]Tokens used: prompt='', Val prompt_tokens,
                             Lit '', completion='', Val completion_tokens,
                             Lit '', total='', Val total_tokens,
                             Lit '' | Cost: $'', Cost cost, Lit ''[/yellow]'']])))) of
              Inl e \<Rightarrow> (Inl e, [])
            | Inr ev \<Rightarrow> (Inr (), ev))
      else (Inr (), []))"

definition non_streaming_turn ::
  "config \<Rightarrow> world \<Rightarrow> ustring \<Rightarrow> ustring \<Rightarrow> (exn + unit) \<times> event list" where
  \<comment> \<open>lines 279 to 315\<close>
  "non_streaming_turn cfg w prompt model =
     (case make_non_streaming_call (post_result w) prompt model of
        (Inl e, ev) \<Rightarrow> (Inl e, Call_non_streaming prompt model # ev)
      | (Inr (response, reasoning_content, tokens), ev) \<Rightarrow>
          let head = Call_non_streaming prompt model # ev
          in (case response of
                JNull \<Rightarrow> (Inr (), head @ [Print [Lit ''[red]No response received from API.[/red]'']])
              | JStr response \<Rightarrow>
                  let title = (if truthy reasoning_content
                               then [Print [Lit ''[cyan bold]>>> Reasoning:[/cyan bold]'']] else [])
                  in (case (if truthy reasoning_content
                            then (case reasoning_content of
                                    JStr r \<Rightarrow> Inr [PrintMarkdown r ''cyan'']
                                  | _ \<Rightarrow> Inl TypeError)
                            else Inr []) of
                        Inl e \<Rightarrow> (Inl e, head @ title)
                      | Inr reasoning \<Rightarrow>
                          let shown = head @ title @ reasoning
                                      @ [Print [Lit ''[blue bold]>>> Grok 3:[/blue bold]'']]
                                      @ render_response response
                          in (case usage_line cfg model tokens of (r, ev') \<Rightarrow> (r, shown @ ev')))
              | other \<Rightarrow>
                  (Inr (), head @ [Print [Lit ''[red]Error: Expected string response, got '',
                                          TypeOf other, Lit ''[/red]'']])))"

definition turn :: "config \<Rightarrow> bool \<Rightarrow> ustring \<Rightarrow> world \<Rightarrow> stdin \<Rightarrow> loop_state \<times> event list" where
  \<comment> \<open>one pass through the body of \<open>while True\<close>, from the state of waiting for input\<close>
  "turn cfg stream model w inp =
     (let prefix = [PrintNoEnd [Lit ''[green]>>> [/green]'']] in
      case inp of
        CtrlC \<Rightarrow> (Exited, prefix @ [Print [Lit ''[yellow]\<newline>Exiting chat.[/yellow]'']])
      | EndOfInput \<Rightarrow> (AwaitingInput, prefix @ [Print [Lit ''[red]Error: '', Exc EOFError, Lit ''[/red]'']])
      | Input text \<Rightarrow>
          let prompt = strip text in
          if lower (unicode_table w) prompt = ustr ''exit''
          then (Exited, prefix @ [Print [Lit ''[yellow]Exiting chat.[/yellow]'']])
          else if lower (unicode_table w) prompt = ustr ''help''
          then (AwaitingInput, prefix @ [PrintHelp])
          else if prompt = []
          then (AwaitingInput, prefix)
          else
            let you = [Print [Lit ''[green bold]>>> You:[/green bold] '', Str prompt]] in
            (case (if stream then streaming_turn w prompt model
                   else non_streaming_turn cfg w prompt model) of
               (Inr _, ev) \<Rightarrow> (AwaitingInput, prefix @ you @ ev)
             | (Inl KeyboardInterrupt, ev) \<Rightarrow>
                 (Exited, prefix @ you @ ev @ [Print [Lit ''[yellow]\<newline>Exiting chat.[/yellow]'']])
             | (Inl e, ev) \<Rightarrow>
                 if is_exception e
                 then (AwaitingInput, prefix @ you @ ev @ [Print [Lit ''[red]Error: '', Exc e, Lit ''[/red]'']])
                 else (Terminated e, prefix @ you @ ev)))"

definition loop_step ::
  "config \<Rightarrow> bool \<Rightarrow> ustring \<Rightarrow> loop_state \<Rightarrow> world \<times> stdin \<Rightarrow> loop_state \<times> event list" where
  \<comment> \<open>the loop as a state machine: nothing happens once it has been left\<close>
  "loop_step cfg stream model st x =
     (case st of AwaitingInput \<Rightarrow> turn cfg stream model (fst x) (snd x) | _ \<Rightarrow> (st, []))"

fun is_call :: "event \<Rightarrow> bool" where
  "is_call (Call_non_streaming _ _) = True"
| "is_call (Call_streaming _ _) = True"
| "is_call _ = False"

section \<open>Auxiliary notions for the proofs\<close>

text \<open>
  A line is blank when it holds whitespace only. \<open>squeeze\<close> says on lists of lines what
  the substitution of \<open>\n\s*\n+\<close> does on the text; \<open>well\<close> describes the lines it
  leaves: lines with text, any two of them separated by at most one empty line.
\<close>

abbreviation blank :: "ustring \<Rightarrow> bool" where
  "blank l \<equiv> list_all isspace l"

definition stripped :: "ustring \<Rightarrow> bool" where
  "stripped s = (s = [] \<or> (\<not> isspace (hd s) \<and> \<not> isspace (last s)))"

abbreviation nl_free :: "ustring \<Rightarrow> bool" where
  "nl_free l \<equiv> NL \<notin> set l"

fun skip_blank :: "ustring list \<Rightarrow> ustring list" where
  "skip_blank [] = []"
| "skip_blank [l] = [l]"
| "skip_blank (l # l' # ls) = (if blank l then skip_blank (l' # ls) else l # l' # ls)"

function squeeze :: "ustring list \<Rightarrow> ustring list" where
  "squeeze [] = []"
| "squeeze [l] = [l]"
| "squeeze (l # l2 # ls) =
     (if blank l2 \<and> ls \<noteq> [] then l # [] # squeeze (skip_blank ls) else l # squeeze (l2 # ls))"
  by pat_completeness auto
termination
proof (relation "measure length")
  show "wf (measure length)" by simp
next
  fix l l2 :: ustring and ls :: "ustring list"
  have "length (skip_blank ls) \<le> length ls"
    by (induction ls rule: skip_blank.induct) auto
  then show "(skip_blank ls, l # l2 # ls) \<in> measure length" by simp
next
  fix l l2 :: ustring and ls :: "ustring list"
  show "(l2 # ls, l # l2 # ls) \<in> measure length" by simp
qed

fun single_spaced :: "ustring \<Rightarrow> bool" where
  "single_spaced [] = True"
| "single_spaced (c # cs) =
     (if isspace c then c = SP \<and> (cs = [] \<or> \<not> isspace (hd cs)) \<and> single_spaced cs
      else single_spaced cs)"

fun well :: "ustring list \<Rightarrow> bool" where
  "well [] = False"
| "well [l] = (\<not> blank l)"
| "well (l # l2 # ls) = (\<not> blank l \<and> (if l2 = [] then ls \<noteq> [] \<and> well ls else well (l2 # ls)))"

definition out_lines :: "ustring \<Rightarrow> ustring list" where
  "out_lines s = map clean_line (squeeze (split_nl (strip s)))"

abbreviation text_lines :: "ustring \<Rightarrow> ustring list" where
  "text_lines s \<equiv> map clean_line (filter (\<lambda>l. \<not> blank l) (split_nl s))"



declare backtrack.simps [simp del]
declare re_sub.simps(2) [simp del]
declare re_split.simps(2) [simp del]

section \<open>Python strings: lemmas\<close>

lemma isspace_NL [simp]: "isspace NL" by (simp add: isspace_def NL_def)
lemma isspace_SP [simp]: "isspace SP" by (simp add: isspace_def SP_def)

lemma lstrip_Nil [simp]: "lstrip [] = []" by (simp add: lstrip_def)
lemma rstrip_Nil [simp]: "rstrip [] = []" by (simp add: rstrip_def)
lemma strip_Nil [simp]: "strip [] = []" by (simp add: strip_def)

lemma lstrip_Cons: "lstrip (c # cs) = (if isspace c then lstrip cs else c # cs)"
  by (simp add: lstrip_def)

lemma rstrip_Nil_iff: "rstrip s = [] \<longleftrightarrow> blank s"
  by (auto simp: rstrip_def list_all_iff)

lemma lstrip_Nil_iff: "lstrip s = [] \<longleftrightarrow> blank s"
  by (auto simp: lstrip_def list_all_iff)

lemma rstrip_Cons: "rstrip (c # cs) = (if blank cs \<and> isspace c then [] else c # rstrip cs)"
  by (auto simp: rstrip_def dropWhile_append list_all_iff split: if_splits)

lemma lstrip_rstrip: "lstrip (rstrip s) = rstrip (lstrip s)"
  by (induction s) (auto simp: lstrip_Cons rstrip_Cons rstrip_Nil_iff lstrip_Nil_iff [THEN iffD2])

lemma strip_Nil_iff: "strip s = [] \<longleftrightarrow> blank s"
proof -
  have "blank (lstrip s) \<longleftrightarrow> blank s"
    by (induction s) (auto simp: lstrip_Cons)
  then show ?thesis by (simp add: strip_def rstrip_Nil_iff)
qed

lemma lstrip_idem [simp]: "lstrip (lstrip s) = lstrip s"
  by (simp add: lstrip_def)

lemma rstrip_idem [simp]: "rstrip (rstrip s) = rstrip s"
  by (simp add: rstrip_def)

lemma strip_lstrip [simp]: "strip (lstrip s) = strip s"
  by (simp add: strip_def)

lemma strip_rstrip [simp]: "strip (rstrip s) = strip s"
  by (simp add: strip_def lstrip_rstrip)

lemma strip_idem [simp]: "strip (strip s) = strip s"
  by (simp add: strip_def lstrip_rstrip)

lemma lstrip_append_blank: "blank w \<Longrightarrow> lstrip (w @ s) = lstrip s"
  by (induction w) (auto simp: lstrip_Cons)

lemma rstrip_append_blank: "blank w \<Longrightarrow> rstrip (s @ w) = rstrip s"
  by (simp add: rstrip_def dropWhile_append list_all_iff)

lemma lstrip_decomp: "\<exists>w. blank w \<and> s = w @ lstrip s"
proof -
  have "blank (takeWhile isspace s)"
    by (auto simp: list_all_iff dest: set_takeWhileD)
  moreover have "s = takeWhile isspace s @ lstrip s"
    by (simp add: lstrip_def)
  ultimately show ?thesis by blast
qed

lemma rstrip_decomp: "\<exists>w. blank w \<and> s = rstrip s @ w"
proof -
  obtain w where w: "blank w" "rev s = w @ lstrip (rev s)"
    using lstrip_decomp by blast
  have "s = rev (lstrip (rev s)) @ rev w"
    using w(2) by (metis rev_append rev_rev_ident)
  moreover have "blank (rev w)" using w(1) by (simp add: list_all_iff)
  ultimately show ?thesis unfolding rstrip_def lstrip_def by blast
qed

lemma lstrip_hd: "lstrip s \<noteq> [] \<Longrightarrow> \<not> isspace (hd (lstrip s))"
  unfolding lstrip_def by (rule hd_dropWhile)

lemma rstrip_last: "rstrip s \<noteq> [] \<Longrightarrow> \<not> isspace (last (rstrip s))"
  unfolding rstrip_def by (simp add: last_rev hd_dropWhile)

lemma lstrip_id: "s = [] \<or> \<not> isspace (hd s) \<Longrightarrow> lstrip s = s"
  by (cases s) (auto simp: lstrip_Cons)

lemma rstrip_id: "s = [] \<or> \<not> isspace (last s) \<Longrightarrow> rstrip s = s"
  by (cases s rule: rev_cases) (auto simp: rstrip_def)

lemma hd_rstrip: "s \<noteq> [] \<Longrightarrow> \<not> isspace (hd s) \<Longrightarrow> hd (rstrip s) = hd s \<and> rstrip s \<noteq> []"
  by (cases s) (auto simp: rstrip_Cons)

lemma stripped_strip: "stripped (strip s)"
proof (cases "lstrip s = []")
  case True
  then show ?thesis by (simp add: stripped_def strip_def)
next
  case False
  then have h: "\<not> isspace (hd (lstrip s))" by (rule lstrip_hd)
  from hd_rstrip [OF False h] rstrip_last [of "lstrip s"] h
  show ?thesis by (simp add: stripped_def strip_def)
qed

lemma strip_stripped: "stripped s \<Longrightarrow> strip s = s"
  by (auto simp: stripped_def strip_def lstrip_id rstrip_id)

subsection \<open>split and join\<close>

lemma split_nl_not_Nil [simp]: "split_nl s \<noteq> []"
  by (induction s) (auto split: list.splits)

lemma split_nl_Cons:
  "split_nl (c # cs) = (if c = NL then [] # split_nl cs else (c # hd (split_nl cs)) # tl (split_nl cs))"
  by (cases "split_nl cs") auto

lemma join_split [simp]: "join_nl (split_nl s) = s"
proof (induction s)
  case Nil
  show ?case by simp
next
  case (Cons c cs)
  obtain l ls where e: "split_nl cs = l # ls" by (cases "split_nl cs") auto
  with Cons show ?case by (cases ls) auto
qed

lemma split_nl_free: "l \<in> set (split_nl s) \<Longrightarrow> nl_free l"
  by (induction s arbitrary: l) (auto split: list.splits if_splits)

lemma split_nl_free_line: "nl_free l \<Longrightarrow> split_nl l = [l]"
  by (induction l) auto

lemma split_append_NL: "nl_free l \<Longrightarrow> split_nl (l @ NL # s) = l # split_nl s"
  by (induction l) auto

lemma split_join: "ls \<noteq> [] \<Longrightarrow> \<forall>l\<in>set ls. nl_free l \<Longrightarrow> split_nl (join_nl ls) = ls"
  by (induction ls rule: join_nl.induct) (auto simp: split_nl_free_line split_append_NL)

subsection \<open>The blank-line pattern\<close>

lemma re_sub_blank_char: "c \<noteq> NL \<Longrightarrow> re_sub match_blank r (c # s) = c # re_sub match_blank r s"
  by (simp add: re_sub.simps(2) match_blank_def)

lemma re_sub_blank_line: "nl_free l \<Longrightarrow> re_sub match_blank r (l @ s) = l @ re_sub match_blank r s"
  by (induction l) (simp_all add: re_sub_blank_char)

lemma backtrack_None: "(\<forall>j\<le>k. j < length cs \<longrightarrow> cs ! j \<noteq> NL) \<Longrightarrow> backtrack k cs = None"
proof (induction k)
  case 0
  then show ?case by (auto simp: backtrack.simps)
next
  case (Suc k)
  then have "backtrack k cs = None" by simp
  moreover have "\<not> (Suc k < length cs \<and> cs ! Suc k = NL)" using Suc.prems by blast
  ultimately show ?case by (subst backtrack.simps) simp
qed

lemma backtrack_last:
  "nl_free post \<Longrightarrow> rest = [] \<or> hd rest \<noteq> NL \<Longrightarrow>
   backtrack (Suc (length pre + length post)) (pre @ NL # post @ rest) = Some (Suc (length pre))"
proof (induction post arbitrary: rest rule: rev_induct)
  case Nil
  have a: "backtrack (Suc (length pre)) (pre @ NL # rest) = backtrack (length pre) (pre @ NL # rest)"
    using Nil.prems(2) by (subst backtrack.simps) (cases rest; auto simp: nth_append)
  have b: "takeWhile (\<lambda>c. c = NL) rest = []"
    using Nil.prems(2) by (cases rest) auto
  have "backtrack (length pre) (pre @ NL # rest) = Some (Suc (length pre))"
    by (subst backtrack.simps) (simp add: nth_append b)
  with a show ?case by simp
next
  case (snoc x post)
  let ?cs = "pre @ NL # (post @ [x]) @ rest"
  have a: "backtrack (Suc (Suc (length pre + length post))) ?cs
      = backtrack (Suc (length pre + length post)) ?cs"
    using snoc.prems(2) by (subst backtrack.simps) (cases rest; auto simp: nth_append)
  have "backtrack (Suc (length pre + length post)) (pre @ NL # post @ (x # rest)) = Some (Suc (length pre))"
    using snoc.prems(1) by (intro snoc.IH) auto
  with a show ?case by simp
qed

lemma re_sub_blank_hit:
  assumes "blank pre" "blank post" "nl_free post" "rest = [] \<or> \<not> isspace (hd rest)"
  shows "re_sub match_blank r (NL # pre @ NL # post @ rest) = r @ re_sub match_blank r (post @ rest)"
proof -
  have tw: "takeWhile isspace (pre @ NL # post @ rest) = pre @ NL # post"
  proof -
    have "takeWhile isspace rest = []" using assms(4) by (cases rest) auto
    then show ?thesis using assms(1,2) by (simp add: takeWhile_append list_all_iff)
  qed
  have "rest = [] \<or> hd rest \<noteq> NL" using assms(4) by auto
  then have "backtrack (Suc (length pre + length post)) (pre @ NL # post @ rest) = Some (Suc (length pre))"
    using assms(3) by (rule backtrack_last [rotated])
  then have "match_blank (NL # pre @ NL # post @ rest) = Some (Suc (Suc (length pre)))"
    by (simp add: match_blank_def tw)
  then show ?thesis by (simp add: re_sub.simps(2))
qed

lemma re_sub_blank_miss:
  assumes "nl_free (takeWhile isspace cs)"
  shows "re_sub match_blank r (NL # cs) = NL # re_sub match_blank r cs"
proof -
  let ?k = "length (takeWhile isspace cs)"
  have "cs ! j \<noteq> NL" if "j \<le> ?k" "j < length cs" for j
  proof (cases "j < ?k")
    case True
    then have "cs ! j = takeWhile isspace cs ! j" by (simp add: takeWhile_nth)
    moreover have "takeWhile isspace cs ! j \<in> set (takeWhile isspace cs)" using True by simp
    ultimately show ?thesis using assms by metis
  next
    case False
    with that have "j = ?k" by simp
    with that(2) have "\<not> isspace (cs ! j)" by (simp add: nth_length_takeWhile)
    then show ?thesis by auto
  qed
  then have "backtrack ?k cs = None" by (intro backtrack_None) blast
  then show ?thesis by (simp add: re_sub.simps(2) match_blank_def)
qed

lemma length_skip_blank: "length (skip_blank ls) \<le> length ls"
  by (induction ls rule: skip_blank.induct) auto

lemma skip_blank_not_Nil: "ls \<noteq> [] \<Longrightarrow> skip_blank ls \<noteq> []"
  by (induction ls rule: skip_blank.induct) auto

lemma set_skip_blank: "set (skip_blank ls) \<subseteq> set ls"
  by (induction ls rule: skip_blank.induct) auto

lemma squeeze_not_Nil: "ls \<noteq> [] \<Longrightarrow> squeeze ls \<noteq> []"
  by (induction ls rule: squeeze.induct) auto

lemma join_nl_Cons: "ls \<noteq> [] \<Longrightarrow> join_nl (l # ls) = l @ NL # join_nl ls"
  by (cases ls) auto

lemma blank_run_decomp:
  "blank pre0 \<Longrightarrow> ls \<noteq> [] \<Longrightarrow> \<forall>l\<in>set ls. nl_free l \<Longrightarrow>
   \<exists>pre post rest. pre0 @ NL # join_nl ls = pre @ NL # post @ rest \<and> blank pre \<and> blank post
      \<and> nl_free post \<and> (rest = [] \<or> \<not> isspace (hd rest)) \<and> post @ rest = join_nl (skip_blank ls)"
proof (induction ls arbitrary: pre0 rule: skip_blank.induct)
  case 1
  then show ?case by simp
next
  case (2 l)
  let ?post = "takeWhile isspace l" and ?rest = "dropWhile isspace l"
  have "blank ?post" by (auto simp: list_all_iff dest: set_takeWhileD)
  moreover have "nl_free ?post" using 2 by (auto dest: set_takeWhileD)
  moreover have "?rest = [] \<or> \<not> isspace (hd ?rest)" using hd_dropWhile [of isspace l] by blast
  ultimately show ?case using 2(1) by (intro exI [of _ pre0] exI [of _ ?post] exI [of _ ?rest]) simp
next
  case (3 l l' ls)
  show ?case
  proof (cases "blank l")
    case True
    have "blank (pre0 @ NL # l)" using True 3(2) by simp
    have "\<exists>pre post rest. (pre0 @ NL # l) @ NL # join_nl (l' # ls) = pre @ NL # post @ rest
        \<and> blank pre \<and> blank post \<and> nl_free post \<and> (rest = [] \<or> \<not> isspace (hd rest))
        \<and> post @ rest = join_nl (skip_blank (l' # ls))"
      by (rule "3.IH" [OF True \<open>blank (pre0 @ NL # l)\<close>]) (use 3(4) in auto)
    then obtain pre post rest where
      "(pre0 @ NL # l) @ NL # join_nl (l' # ls) = pre @ NL # post @ rest" "blank pre" "blank post"
      "nl_free post" "rest = [] \<or> \<not> isspace (hd rest)" "post @ rest = join_nl (skip_blank (l' # ls))"
      by blast
    then show ?thesis using True by (intro exI [of _ pre] exI [of _ post] exI [of _ rest]) simp
  next
    case False
    let ?post = "takeWhile isspace l" and ?rest = "dropWhile isspace l @ NL # join_nl (l' # ls)"
    have ne: "dropWhile isspace l \<noteq> []" using False by (auto simp: list_all_iff)
    have "blank ?post" by (auto simp: list_all_iff dest: set_takeWhileD)
    moreover have "nl_free ?post" using 3(4) by (auto dest: set_takeWhileD)
    moreover have "\<not> isspace (hd ?rest)" using ne by (simp add: hd_dropWhile)
    ultimately show ?thesis using 3(2) False
      by (intro exI [of _ pre0] exI [of _ ?post] exI [of _ ?rest]) simp
  qed
qed

lemma re_sub_blank_lines:
  "\<forall>l\<in>set ls. nl_free l \<Longrightarrow> re_sub match_blank [NL, NL] (join_nl ls) = join_nl (squeeze ls)"
proof (induction ls rule: squeeze.induct)
  case 1
  show ?case by simp
next
  case (2 l)
  then show ?case using re_sub_blank_line [of l _ "[]"] by simp
next
  case (3 l l2 ls)
  have l: "nl_free l" and l2: "nl_free l2" and ls: "\<forall>x\<in>set ls. nl_free x" using 3(3) by auto
  have step: "re_sub match_blank [NL, NL] (join_nl (l # l2 # ls))
      = l @ re_sub match_blank [NL, NL] (NL # join_nl (l2 # ls))"
    using re_sub_blank_line [OF l] by simp
  show ?case
  proof (cases "blank l2 \<and> ls \<noteq> []")
    case True
    then obtain pre post rest where d:
      "l2 @ NL # join_nl ls = pre @ NL # post @ rest" "blank pre" "blank post"
      "nl_free post" "rest = [] \<or> \<not> isspace (hd rest)" "post @ rest = join_nl (skip_blank ls)"
      using blank_run_decomp [of l2 ls] ls by blast
    have "\<forall>x\<in>set (skip_blank ls). nl_free x" using ls set_skip_blank by blast
    with "3.IH"(1) True
    have ih: "re_sub match_blank [NL, NL] (join_nl (skip_blank ls)) = join_nl (squeeze (skip_blank ls))"
      by simp
    have "re_sub match_blank [NL, NL] (NL # join_nl (l2 # ls))
        = [NL, NL] @ re_sub match_blank [NL, NL] (post @ rest)"
      using re_sub_blank_hit [OF d(2,3,4,5)] d(1) True by (simp add: join_nl_Cons)
    moreover have "squeeze (skip_blank ls) \<noteq> []"
      using True by (simp add: squeeze_not_Nil skip_blank_not_Nil)
    ultimately show ?thesis using True step ih d(6) by (simp add: join_nl_Cons)
  next
    case False
    have "nl_free (takeWhile isspace (join_nl (l2 # ls)))"
    proof (cases "ls = []")
      case True
      then show ?thesis using l2 by (auto dest: set_takeWhileD)
    next
      case ne: False
      with False obtain x where "x \<in> set l2" "\<not> isspace x" by (auto simp: list_all_iff)
      then have "takeWhile isspace (join_nl (l2 # ls)) = takeWhile isspace l2"
        using ne by (simp add: join_nl_Cons)
      then show ?thesis using l2 by (auto dest: set_takeWhileD)
    qed
    then have "re_sub match_blank [NL, NL] (NL # join_nl (l2 # ls))
        = NL # re_sub match_blank [NL, NL] (join_nl (l2 # ls))"
      by (rule re_sub_blank_miss)
    moreover have "re_sub match_blank [NL, NL] (join_nl (l2 # ls)) = join_nl (squeeze (l2 # ls))"
      using "3.IH"(2) False l2 ls by simp
    moreover have "squeeze (l2 # ls) \<noteq> []" by (simp add: squeeze_not_Nil)
    ultimately show ?thesis using False step by (auto simp: join_nl_Cons)
  qed
qed

subsection \<open>The whitespace pattern\<close>

lemma collapse_ws_Nil [simp]: "collapse_ws [] = []"
  by (simp add: collapse_ws_def)

lemma collapse_space: "isspace c \<Longrightarrow> collapse_ws (c # cs) = SP # collapse_ws (dropWhile isspace cs)"
  by (simp add: collapse_ws_def re_sub.simps(2) match_ws_def dropWhile_eq_drop)

lemma collapse_char: "\<not> isspace c \<Longrightarrow> collapse_ws (c # cs) = c # collapse_ws cs"
  by (simp add: collapse_ws_def re_sub.simps(2) match_ws_def)

lemma rstrip_char: "\<not> isspace c \<Longrightarrow> rstrip (c # s) = c # rstrip s"
  by (simp add: rstrip_Cons)

lemma lstrip_collapse_id: "d = [] \<or> \<not> isspace (hd d) \<Longrightarrow> lstrip (collapse_ws d) = collapse_ws d"
  by (cases d) (auto simp: collapse_char lstrip_Cons)

lemma lstrip_collapse: "lstrip (collapse_ws l) = collapse_ws (lstrip l)"
proof (cases l)
  case Nil
  then show ?thesis by simp
next
  case (Cons c cs)
  show ?thesis
  proof (cases "isspace c")
    case True
    have "dropWhile isspace cs = [] \<or> \<not> isspace (hd (dropWhile isspace cs))"
      using hd_dropWhile [of isspace cs] by blast
    then have "lstrip (collapse_ws (dropWhile isspace cs)) = collapse_ws (dropWhile isspace cs)"
      by (rule lstrip_collapse_id)
    then show ?thesis using True Cons
      by (simp add: collapse_space lstrip_Cons) (simp add: lstrip_def)
  next
    case False
    then show ?thesis using Cons by (simp add: collapse_char lstrip_Cons)
  qed
qed

lemma dropWhile_blank: "blank w \<Longrightarrow> dropWhile isspace w = []"
  by (simp add: list_all_iff)

lemma collapse_blank: "blank w \<Longrightarrow> w \<noteq> [] \<Longrightarrow> collapse_ws w = [SP]"
  by (cases w) (simp_all add: collapse_space dropWhile_blank)

lemma collapse_hd: "d = [] \<or> \<not> isspace (hd d) \<Longrightarrow> collapse_ws d = [] \<or> \<not> isspace (hd (collapse_ws d))"
  by (cases d) (auto simp: collapse_char)

lemma rstrip_Cons_cong: "rstrip x = rstrip y \<Longrightarrow> rstrip (c # x) = rstrip (c # y)"
  by (simp add: rstrip_Cons flip: rstrip_Nil_iff)

lemma rstrip_collapse_append: "blank w \<Longrightarrow> rstrip (collapse_ws (l @ w)) = rstrip (collapse_ws l)"
proof (induction l rule: length_induct)
  case (1 l)
  show ?case
  proof (cases l)
    case Nil
    show ?thesis
    proof (cases w)
      case Nil
      with \<open>l = []\<close> show ?thesis by simp
    next
      case (Cons c w')
      then have "collapse_ws w = [SP]" using 1(2) by (intro collapse_blank) auto
      then show ?thesis using \<open>l = []\<close> by (simp add: rstrip_Cons)
    qed
  next
    case (Cons c cs)
    show ?thesis
    proof (cases "isspace c")
      case False
      have "rstrip (collapse_ws (cs @ w)) = rstrip (collapse_ws cs)" using 1 Cons by simp
      from rstrip_Cons_cong [OF this, of c] show ?thesis using False Cons by (simp add: collapse_char)
    next
      case True
      show ?thesis
      proof (cases "blank cs")
        case b: True
        then have "blank (cs @ w)" using 1(2) by simp
        then show ?thesis using True Cons b by (simp add: collapse_space dropWhile_blank del: list_all_append)
      next
        case nb: False
        then obtain x where "x \<in> set cs" "\<not> isspace x" by (auto simp: list_all_iff)
        then have e: "dropWhile isspace (cs @ w) = dropWhile isspace cs @ w" by simp
        have "length (dropWhile isspace cs) < length l"
          using Cons length_dropWhile_le [of isspace cs] by simp
        with 1 have "rstrip (collapse_ws (dropWhile isspace cs @ w)) = rstrip (collapse_ws (dropWhile isspace cs))"
          by simp
        from rstrip_Cons_cong [OF this, of SP] show ?thesis using True Cons e by (simp add: collapse_space)
      qed
    qed
  qed
qed

lemma strip_collapse: "strip (collapse_ws l) = rstrip (collapse_ws (lstrip l))"
  by (simp add: strip_def lstrip_collapse)

lemma strip_collapse_Nil_iff: "strip (collapse_ws l) = [] \<longleftrightarrow> blank l"
proof (cases "lstrip l")
  case Nil
  then show ?thesis by (simp add: strip_collapse lstrip_Nil_iff [symmetric])
next
  case (Cons c ys)
  then have "\<not> isspace c" using lstrip_hd [of l] by simp
  then show ?thesis using Cons
    by (simp add: strip_collapse collapse_char rstrip_char flip: lstrip_Nil_iff)
qed

lemma single_spaced_collapse: "single_spaced (collapse_ws l)"
proof (induction l rule: length_induct)
  case (1 l)
  show ?case
  proof (cases l)
    case Nil
    then show ?thesis by simp
  next
    case (Cons c cs)
    show ?thesis
    proof (cases "isspace c")
      case False
      then show ?thesis using 1 Cons by (simp add: collapse_char)
    next
      case True
      let ?d = "dropWhile isspace cs"
      have "length ?d < length l" using Cons length_dropWhile_le [of isspace cs] by simp
      with 1 have a: "single_spaced (collapse_ws ?d)" by simp
      have "?d = [] \<or> \<not> isspace (hd ?d)" using hd_dropWhile [of isspace cs] by blast
      then have "collapse_ws ?d = [] \<or> \<not> isspace (hd (collapse_ws ?d))" by (rule collapse_hd)
      with a show ?thesis using True Cons by (simp add: collapse_space)
    qed
  qed
qed

lemma collapse_single_spaced: "single_spaced r \<Longrightarrow> collapse_ws r = r"
proof (induction r)
  case Nil
  show ?case by simp
next
  case (Cons c cs)
  show ?case
  proof (cases "isspace c")
    case False
    with Cons show ?thesis by (simp add: collapse_char)
  next
    case True
    with Cons.prems have "c = SP" "cs = [] \<or> \<not> isspace (hd cs)" "single_spaced cs" by auto
    moreover from this(2) have "dropWhile isspace cs = cs" by (cases cs) auto
    ultimately show ?thesis using True Cons.IH by (simp add: collapse_space)
  qed
qed

lemma single_spaced_lstrip: "single_spaced r \<Longrightarrow> single_spaced (lstrip r)"
  by (induction r) (auto simp: lstrip_Cons split: if_splits)

lemma single_spaced_rstrip: "single_spaced r \<Longrightarrow> single_spaced (rstrip r)"
proof (induction r)
  case Nil
  show ?case by simp
next
  case (Cons c cs)
  then have ih: "single_spaced (rstrip cs)" by (simp split: if_splits)
  show ?case
  proof (cases "isspace c")
    case False
    with ih show ?thesis by (simp add: rstrip_char)
  next
    case True
    with Cons.prems have c: "c = SP" "cs = [] \<or> \<not> isspace (hd cs)" by auto
    have "rstrip cs = [] \<or> \<not> isspace (hd (rstrip cs))"
      using c(2) hd_rstrip [of cs] by (cases "cs = []") auto
    with ih c(1) True show ?thesis by (simp add: rstrip_Cons)
  qed
qed

lemma collapse_strip_collapse: "collapse_ws (strip (collapse_ws l)) = strip (collapse_ws l)"
  by (simp add: collapse_single_spaced strip_def single_spaced_rstrip single_spaced_lstrip
      single_spaced_collapse)

subsection \<open>List markers\<close>

lemma startswith_simps [simp]:
  "startswith s [] = True"
  "startswith [] (a # p) = False"
  "startswith (c # s) (a # p) = (c = a \<and> startswith s p)"
  by (auto simp: startswith_def)

lemma startswith_second:
  "\<not> isspace b \<Longrightarrow> startswith (rstrip (collapse_ws ys)) [b] = startswith (rstrip ys) [b]"
proof (cases ys)
  case Nil
  then show ?thesis by simp
next
  case (Cons e more)
  assume b: "\<not> isspace b"
  show ?thesis
  proof (cases "isspace e")
    case False
    then show ?thesis using Cons by (simp add: collapse_char rstrip_char)
  next
    case True
    then have "e \<noteq> b" "SP \<noteq> b" using b by auto
    then show ?thesis using Cons True by (auto simp: collapse_space rstrip_Cons)
  qed
qed

lemma markers_cases:
  "m \<in> set markers \<Longrightarrow> m = [8226] \<or> (\<exists>a b. m = [a, b] \<and> \<not> isspace b)"
  by (auto simp: markers_def ustr_def isspace_def)

lemma startswith_strip_collapse:
  assumes "m \<in> set markers"
  shows "startswith (strip (collapse_ws l)) m = startswith (strip l) m"
proof (cases "lstrip l")
  case Nil
  then show ?thesis by (simp add: strip_collapse) (simp add: strip_def)
next
  case (Cons c ys)
  then have c: "\<not> isspace c" using lstrip_hd [of l] by simp
  have 1: "strip (collapse_ws l) = c # rstrip (collapse_ws ys)"
    using Cons c by (simp add: strip_collapse collapse_char rstrip_char)
  have 2: "strip l = c # rstrip ys"
    using Cons c by (simp add: strip_def rstrip_char)
  from markers_cases [OF assms] show ?thesis
  proof
    assume "m = [8226]"
    then show ?thesis by (simp add: 1 2)
  next
    assume "\<exists>a b. m = [a, b] \<and> \<not> isspace b"
    then obtain a b where "m = [a, b]" "\<not> isspace b" by blast
    then show ?thesis using startswith_second [of b ys] by (simp add: 1 2)
  qed
qed

lemma is_list_line_strip [simp]: "is_list_line (strip l) = is_list_line l"
  by (simp add: is_list_line_def)

lemma is_list_line_strip_collapse: "is_list_line (strip (collapse_ws l)) = is_list_line l"
  by (simp add: is_list_line_def list_ex_iff startswith_strip_collapse)

subsection \<open>Cleaning one line\<close>

lemma clean_line_idem: "clean_line (clean_line l) = clean_line l"
  by (simp add: clean_line_def is_list_line_strip_collapse collapse_strip_collapse)

lemma stripped_clean_line: "stripped (clean_line l)"
  by (simp add: clean_line_def stripped_strip)

lemma clean_line_Nil_iff: "clean_line l = [] \<longleftrightarrow> blank l"
  by (simp add: clean_line_def strip_collapse_Nil_iff) (simp add: strip_Nil_iff)

lemma set_lstrip: "set (lstrip s) \<subseteq> set s"
  by (auto simp: lstrip_def dest: set_dropWhileD)

lemma set_rstrip: "set (rstrip s) \<subseteq> set s"
  by (auto simp: rstrip_def dest: set_dropWhileD)

lemma set_strip: "set (strip s) \<subseteq> set s"
  using set_lstrip set_rstrip unfolding strip_def by blast

lemma set_collapse: "set (collapse_ws l) \<subseteq> insert SP (set l)"
proof (induction l rule: length_induct)
  case (1 l)
  show ?case
  proof (cases l)
    case Nil
    then show ?thesis by simp
  next
    case (Cons c cs)
    show ?thesis
    proof (cases "isspace c")
      case False
      then show ?thesis using 1 Cons by (auto simp: collapse_char)
    next
      case True
      have "length (dropWhile isspace cs) < length l"
        using Cons length_dropWhile_le [of isspace cs] by simp
      with 1 have "set (collapse_ws (dropWhile isspace cs)) \<subseteq> insert SP (set (dropWhile isspace cs))"
        by simp
      then show ?thesis using True Cons by (auto simp: collapse_space dest: set_dropWhileD)
    qed
  qed
qed

lemma nl_free_clean_line: "nl_free l \<Longrightarrow> nl_free (clean_line l)"
proof -
  assume l: "nl_free l"
  have "NL \<noteq> SP" by (simp add: NL_def SP_def)
  then have "nl_free (collapse_ws l)" using set_collapse [of l] l by auto
  then show ?thesis using set_strip l by (auto simp: clean_line_def)
qed

lemma strip_append_blank: "blank w \<Longrightarrow> strip (l @ w) = strip l"
  by (simp add: strip_def rstrip_append_blank flip: lstrip_rstrip)

lemma strip_prepend_blank: "blank w \<Longrightarrow> strip (w @ l) = strip l"
  by (simp add: strip_def lstrip_append_blank)

lemma clean_line_prepend: "blank w \<Longrightarrow> clean_line (w @ l) = clean_line l"
  by (simp add: clean_line_def is_list_line_def strip_prepend_blank strip_collapse lstrip_append_blank)

lemma clean_line_append: "blank w \<Longrightarrow> clean_line (l @ w) = clean_line l"
proof -
  assume w: "blank w"
  have "strip (collapse_ws (l @ w)) = strip (collapse_ws l)"
    using rstrip_collapse_append [OF w, of l] by (simp add: strip_def flip: lstrip_rstrip)
  then show ?thesis using w by (simp add: clean_line_def is_list_line_def strip_append_blank)
qed

subsection \<open>Lines after the blank-line substitution\<close>

lemma well_hd: "well ls \<Longrightarrow> ls \<noteq> [] \<and> \<not> blank (hd ls)"
  by (induction ls rule: well.induct) auto

lemma hd_skip_blank: "ls \<noteq> [] \<Longrightarrow> \<not> blank (last ls) \<Longrightarrow> \<not> blank (hd (skip_blank ls))"
  by (induction ls rule: skip_blank.induct) auto

lemma last_skip_blank: "ls \<noteq> [] \<Longrightarrow> last (skip_blank ls) = last ls"
  by (induction ls rule: skip_blank.induct) (auto simp: skip_blank_not_Nil)

lemma skip_blank_id: "ls = [] \<or> \<not> blank (hd ls) \<Longrightarrow> skip_blank ls = ls"
  by (induction ls rule: skip_blank.induct) auto

lemma filter_skip_blank: "filter (\<lambda>l. \<not> blank l) (skip_blank ls) = filter (\<lambda>l. \<not> blank l) ls"
  by (induction ls rule: skip_blank.induct) auto

lemma squeeze_Cons: "\<exists>r. squeeze (l # ls) = l # r"
  by (cases ls) auto

lemma well_squeeze: "ls \<noteq> [] \<Longrightarrow> \<not> blank (hd ls) \<Longrightarrow> \<not> blank (last ls) \<Longrightarrow> well (squeeze ls)"
proof (induction ls rule: squeeze.induct)
  case 1
  then show ?case by simp
next
  case (2 l)
  then show ?case by simp
next
  case (3 l l2 ls)
  show ?case
  proof (cases "blank l2 \<and> ls \<noteq> []")
    case True
    then have "well (squeeze (skip_blank ls))"
      using "3.prems" by (intro "3.IH"(1)) (auto simp: skip_blank_not_Nil hd_skip_blank last_skip_blank)
    moreover have "squeeze (skip_blank ls) \<noteq> []"
      using True by (simp add: squeeze_not_Nil skip_blank_not_Nil)
    ultimately show ?thesis using True "3.prems" by simp
  next
    case False
    then have nb: "\<not> blank l2" using "3.prems" by (cases "ls = []") auto
    have "well (squeeze (l2 # ls))"
      using False nb "3.prems" by (intro "3.IH"(2)) auto
    moreover obtain r where "squeeze (l2 # ls) = l2 # r" using squeeze_Cons by blast
    moreover have "l2 \<noteq> []" using nb by auto
    ultimately show ?thesis using False "3.prems" by auto
  qed
qed

lemma filter_squeeze: "filter (\<lambda>l. \<not> blank l) (squeeze ls) = filter (\<lambda>l. \<not> blank l) ls"
  by (induction ls rule: squeeze.induct) (auto simp: filter_skip_blank)

lemma set_squeeze: "set (squeeze ls) \<subseteq> insert [] (set ls)"
proof (induction ls rule: squeeze.induct)
  case (3 l l2 ls)
  then show ?case using set_skip_blank [of ls] by (auto split: if_splits)
qed auto

lemma squeeze_well: "well ls \<Longrightarrow> squeeze ls = ls"
proof (induction ls rule: squeeze.induct)
  case 1
  then show ?case by simp
next
  case (2 l)
  then show ?case by simp
next
  case (3 l l2 ls)
  show ?case
  proof (cases "blank l2 \<and> ls \<noteq> []")
    case True
    have e: "l2 = []"
    proof (rule ccontr)
      assume "l2 \<noteq> []"
      with "3.prems" have "well (l2 # ls)" by simp
      then show False using True well_hd by fastforce
    qed
    with "3.prems" have w: "well ls" by simp
    then have "skip_blank ls = ls" using well_hd by (intro skip_blank_id) blast
    moreover have "squeeze (skip_blank ls) = skip_blank ls"
      using True w \<open>skip_blank ls = ls\<close> by (intro "3.IH"(1)) simp_all
    ultimately show ?thesis using True e by simp
  next
    case False
    have "l2 \<noteq> []"
    proof
      assume "l2 = []"
      with "3.prems" have "ls \<noteq> []" by simp
      with False \<open>l2 = []\<close> show False by simp
    qed
    with "3.prems" have "well (l2 # ls)" by simp
    with False "3.IH"(2) show ?thesis by auto
  qed
qed

lemma well_no_adjacent_blank:
  "well ls \<Longrightarrow> Suc i < length ls \<Longrightarrow> \<not> (blank (ls ! i) \<and> blank (ls ! Suc i))"
proof (induction ls arbitrary: i rule: well.induct)
  case 1
  then show ?case by simp
next
  case (2 l)
  then show ?case by simp
next
  case (3 l l2 ls)
  show ?case
  proof (cases i)
    case 0
    with "3.prems" show ?thesis by simp
  next
    case (Suc j)
    show ?thesis
    proof (cases "l2 = []")
      case False
      with "3.prems" have "well (l2 # ls)" by simp
      from "3.IH"(2) [OF False this, of j] "3.prems"(2) Suc show ?thesis by simp
    next
      case True
      with "3.prems" have w: "well ls" "ls \<noteq> []" by simp_all
      show ?thesis
      proof (cases j)
        case 0
        with Suc w well_hd [of ls] show ?thesis by (cases ls) auto
      next
        case (Suc k)
        from "3.IH"(1) [OF True w(1), of k] "3.prems"(2) \<open>i = Suc j\<close> Suc show ?thesis by simp
      qed
    qed
  qed
qed

lemma stripped_blank: "stripped s \<Longrightarrow> blank s \<Longrightarrow> s = []"
  by (cases s) (auto simp: stripped_def)

lemma blank_clean_line: "blank (clean_line l) = blank l"
  using stripped_blank [OF stripped_clean_line, of l] clean_line_Nil_iff [of l] by auto

lemma well_map_clean_line: "well ls \<Longrightarrow> well (map clean_line ls)"
proof (induction ls rule: well.induct)
  case 1
  then show ?case by simp
next
  case (2 l)
  then show ?case by (simp add: blank_clean_line)
next
  case (3 l l2 ls)
  show ?case
  proof (cases "l2 = []")
    case True
    then have "clean_line l2 = []" by (simp add: clean_line_Nil_iff)
    with 3 True show ?thesis by (simp add: blank_clean_line)
  next
    case False
    with "3.prems" have w: "well (l2 # ls)" by simp
    then have "\<not> blank l2" using well_hd by fastforce
    then have "clean_line l2 \<noteq> []" by (simp add: clean_line_Nil_iff)
    with 3 False w show ?thesis by (simp add: blank_clean_line)
  qed
qed

lemma hd_join: "well ls \<Longrightarrow> join_nl ls \<noteq> [] \<and> hd (join_nl ls) = hd (hd ls)"
proof -
  assume "well ls"
  then have "ls \<noteq> []" "hd ls \<noteq> []" using well_hd [of ls] by auto
  then show ?thesis by (cases ls rule: join_nl.cases) auto
qed

lemma last_join: "well ls \<Longrightarrow> last (join_nl ls) = last (last ls)"
proof (induction ls rule: well.induct)
  case 1
  then show ?case by simp
next
  case (2 l)
  then show ?case by simp
next
  case (3 l l2 ls)
  show ?case
  proof (cases "l2 = []")
    case True
    with "3.prems" have w: "well ls" "ls \<noteq> []" by simp_all
    then have "join_nl ls \<noteq> []" using hd_join by blast
    with 3 True w show ?thesis by (simp add: join_nl_Cons)
  next
    case False
    with "3.prems" have w: "well (l2 # ls)" by simp
    then have "join_nl (l2 # ls) \<noteq> []" using hd_join by blast
    with 3 False w show ?thesis by simp
  qed
qed

lemma well_last: "well ls \<Longrightarrow> \<not> blank (last ls)"
  by (induction ls rule: well.induct) (auto split: if_splits)

lemma stripped_join:
  assumes "well ls" "\<forall>l\<in>set ls. stripped l"
  shows "stripped (join_nl ls)"
proof -
  have ne: "ls \<noteq> []" "hd ls \<noteq> []" "last ls \<noteq> []"
    using well_hd [OF assms(1)] well_last [OF assms(1)] by auto
  then have "stripped (hd ls)" "stripped (last ls)" using assms(2) by simp_all
  with ne have "\<not> isspace (hd (hd ls))" "\<not> isspace (last (last ls))" by (simp_all add: stripped_def)
  then show ?thesis using hd_join [OF assms(1)] last_join [OF assms(1)] by (simp add: stripped_def)
qed

subsection \<open>Lines of a stripped text\<close>

lemma hd_split_nonblank: "s \<noteq> [] \<Longrightarrow> \<not> isspace (hd s) \<Longrightarrow> \<not> blank (hd (split_nl s))"
  by (cases s) (auto simp: split_nl_Cons simp del: split_nl.simps(2))

lemma last_split_nonblank: "s \<noteq> [] \<Longrightarrow> \<not> isspace (last s) \<Longrightarrow> \<not> blank (last (split_nl s))"
proof (induction s)
  case Nil
  then show ?case by simp
next
  case (Cons c cs)
  show ?case
  proof (cases "cs = []")
    case True
    with Cons.prems show ?thesis by (auto simp: split_nl_Cons)
  next
    case False
    with Cons have ih: "\<not> blank (last (split_nl cs))" by simp
    obtain l ls where e: "split_nl cs = l # ls" by (cases "split_nl cs") auto
    with ih show ?thesis by (cases ls) (auto simp: split_nl_Cons)
  qed
qed

lemma nl_free_squeeze_split: "l \<in> set (squeeze (split_nl t)) \<Longrightarrow> nl_free l"
  using set_squeeze [of "split_nl t"] split_nl_free [of l t] by auto

lemma well_squeeze_split: "\<not> blank s \<Longrightarrow> well (squeeze (split_nl (strip s)))"
proof -
  assume "\<not> blank s"
  then have ne: "strip s \<noteq> []" by (simp add: strip_Nil_iff)
  with stripped_strip [of s] have "\<not> isspace (hd (strip s))" "\<not> isspace (last (strip s))"
    by (simp_all add: stripped_def)
  then show ?thesis
    using ne by (intro well_squeeze) (simp_all add: hd_split_nonblank last_split_nonblank)
qed

lemma well_out_lines: "\<not> blank s \<Longrightarrow> well (out_lines s)"
  unfolding out_lines_def by (intro well_map_clean_line well_squeeze_split)

lemma nl_free_out_lines: "l \<in> set (out_lines s) \<Longrightarrow> nl_free l"
  unfolding out_lines_def using nl_free_squeeze_split nl_free_clean_line by auto

lemma stripped_out_lines: "l \<in> set (out_lines s) \<Longrightarrow> stripped l"
  unfolding out_lines_def using stripped_clean_line by auto

lemma clean_out_lines: "map clean_line (out_lines s) = out_lines s"
  unfolding out_lines_def by (simp add: clean_line_idem)

lemma clean_response_blank: "blank s \<Longrightarrow> clean_response s = []"
  by (simp add: clean_response_def Let_def strip_Nil_iff [THEN iffD2] clean_line_def)

lemma clean_response_out_lines: "\<not> blank s \<Longrightarrow> clean_response s = join_nl (out_lines s)"
proof -
  assume nb: "\<not> blank s"
  then have "s \<noteq> []" by auto
  have "re_sub match_blank [NL, NL] (strip s) = join_nl (squeeze (split_nl (strip s)))"
    using re_sub_blank_lines [of "split_nl (strip s)"] split_nl_free by simp
  moreover have "split_nl (join_nl (squeeze (split_nl (strip s)))) = squeeze (split_nl (strip s))"
    using nl_free_squeeze_split by (intro split_join) (auto simp: squeeze_not_Nil)
  moreover have "stripped (join_nl (out_lines s))"
    using well_out_lines [OF nb] stripped_out_lines by (intro stripped_join) auto
  ultimately show ?thesis
    using \<open>s \<noteq> []\<close> by (simp add: clean_response_def Let_def out_lines_def strip_stripped)
qed

lemma clean_response_fixed:
  assumes "well ls" "\<forall>l\<in>set ls. stripped l" "\<forall>l\<in>set ls. nl_free l" "map clean_line ls = ls"
  shows "clean_response (join_nl ls) = join_nl ls"
proof -
  have st: "stripped (join_nl ls)" using assms(1,2) by (rule stripped_join)
  have ne: "join_nl ls \<noteq> []" using hd_join [OF assms(1)] by simp
  have "ls \<noteq> []" using assms(1) by auto
  have "re_sub match_blank [NL, NL] (join_nl ls) = join_nl ls"
    using re_sub_blank_lines [OF assms(3)] squeeze_well [OF assms(1)] by simp
  moreover have "split_nl (join_nl ls) = ls" using \<open>ls \<noteq> []\<close> assms(3) by (rule split_join)
  ultimately show ?thesis
    using ne assms(4) by (simp add: clean_response_def Let_def strip_stripped [OF st])
qed

lemma split_out_lines: "\<not> blank s \<Longrightarrow> split_nl (clean_response s) = out_lines s"
proof -
  assume nb: "\<not> blank s"
  have "out_lines s \<noteq> []" using well_out_lines [OF nb] by auto
  then have "split_nl (join_nl (out_lines s)) = out_lines s"
    using nl_free_out_lines by (intro split_join) auto
  then show ?thesis using nb by (simp add: clean_response_out_lines)
qed

lemma no_adjacent_blank:
  assumes "Suc i < length (split_nl (clean_response s))"
  shows "\<not> (blank (split_nl (clean_response s) ! i) \<and> blank (split_nl (clean_response s) ! Suc i))"
proof (cases "blank s")
  case True
  with assms show ?thesis by (simp add: clean_response_blank)
next
  case False
  with assms show ?thesis
    using well_no_adjacent_blank [OF well_out_lines [OF False], of i] by (simp add: split_out_lines)
qed

lemma split_append_NL_any: "split_nl (a @ NL # x) = split_nl a @ split_nl x"
proof (induction a)
  case Nil
  show ?case by simp
next
  case (Cons c a)
  obtain l ls where "split_nl a = l # ls" by (cases "split_nl a") auto
  with Cons show ?case by simp
qed

lemma no_triple_newline: "clean_response s \<noteq> a @ [NL, NL, NL] @ b"
proof
  assume e: "clean_response s = a @ [NL, NL, NL] @ b"
  let ?n = "length (split_nl a)"
  have sp: "split_nl (clean_response s) = split_nl a @ [] # [] # split_nl b"
    using split_append_NL_any [of a "NL # NL # b"] by (simp add: e)
  then have "Suc ?n < length (split_nl (clean_response s))" by simp
  from no_adjacent_blank [OF this] show False by (simp add: sp nth_append)
qed

subsection \<open>Lines of the input\<close>

lemma text_lines_space: "isspace c \<Longrightarrow> text_lines (c # cs) = text_lines cs"
proof -
  assume c: "isspace c"
  obtain l ls where e: "split_nl cs = l # ls" by (cases "split_nl cs") auto
  have "clean_line (c # l) = clean_line l" using clean_line_prepend [of "[c]" l] c by simp
  then show ?thesis using c e by simp
qed

lemma text_lines_lstrip: "text_lines (lstrip s) = text_lines s"
  by (induction s) (simp_all add: lstrip_Cons text_lines_space del: split_nl.simps(2))

lemma split_snoc: "c \<noteq> NL \<Longrightarrow> split_nl (s @ [c]) = butlast (split_nl s) @ [last (split_nl s) @ [c]]"
proof (induction s)
  case Nil
  then show ?case by simp
next
  case (Cons d s)
  obtain l ls where e: "split_nl s = l # ls" by (cases "split_nl s") auto
  with Cons show ?case by (cases ls) auto
qed

lemma text_lines_snoc: "isspace c \<Longrightarrow> text_lines (s @ [c]) = text_lines s"
proof (cases "c = NL")
  case True
  then show ?thesis using split_append_NL_any [of s "[]"] by simp
next
  case False
  assume c: "isspace c"
  let ?L = "split_nl s"
  have L: "?L = butlast ?L @ [last ?L]" by simp
  have "clean_line (last ?L @ [c]) = clean_line (last ?L)" using clean_line_append [of "[c]"] c by simp
  moreover have "text_lines s = map clean_line (filter (\<lambda>l. \<not> blank l) (butlast ?L @ [last ?L]))"
    by simp
  ultimately show ?thesis using c by (simp add: split_snoc [OF False] del: append_butlast_last_id)
qed

lemma text_lines_rstrip: "text_lines (rstrip s) = text_lines s"
proof (induction s rule: rev_induct)
  case Nil
  show ?case by simp
next
  case (snoc c s)
  show ?case
  proof (cases "isspace c")
    case True
    then have "rstrip (s @ [c]) = rstrip s" using rstrip_append_blank [of "[c]" s] by simp
    with snoc True show ?thesis by (simp add: text_lines_snoc)
  next
    case False
    then show ?thesis by (simp add: rstrip_id)
  qed
qed

lemma text_lines_strip: "text_lines (strip s) = text_lines s"
  by (simp add: strip_def text_lines_rstrip text_lines_lstrip)

lemma clean_response_text_lines:
  "filter (\<lambda>l. l \<noteq> []) (split_nl (clean_response s)) = text_lines s"
proof (cases "blank s")
  case True
  then have "text_lines (strip s) = []" by (simp add: strip_Nil_iff [THEN iffD2])
  then show ?thesis using True by (simp add: clean_response_blank text_lines_strip)
next
  case False
  have "filter (\<lambda>l. l \<noteq> []) (out_lines s)
      = map clean_line (filter (\<lambda>l. \<not> blank l) (squeeze (split_nl (strip s))))"
    by (simp add: out_lines_def filter_map comp_def clean_line_Nil_iff)
  then show ?thesis
    using False text_lines_strip [of s] by (simp add: split_out_lines filter_squeeze)
qed

section \<open>Values, API Client and Render Pipeline: lemmas\<close>













lemma concat_re_split: "concat (re_split m acc s) = acc @ s"
  by (induction m acc s rule: re_split.induct)
    (auto simp: re_split.simps(2) split: option.splits nat.splits)

section \<open>Evaluation on concrete inputs\<close>

lemmas render_defs = render_response_def render_part_def re_split.simps(2) match_fence_def fence_def


lemmas str_defs = ustr_def strip_def lstrip_def rstrip_def isspace_def NL_def SP_def startswith_def
  endswith_def

lemmas clean_defs = clean_response_def clean_line_def collapse_ws_def is_list_line_def markers_def
  match_blank_def match_ws_def re_sub.simps(2) backtrack.simps Let_def

section \<open>Response Cleaner: properties\<close>

text \<open>
  Claim C1. For every input string, cleaning twice gives the same text as cleaning once:
  \<open>clean_response(clean_response(s)) = clean_response(s)\<close>.
\<close>

theorem clean_response_idempotent: "clean_response (clean_response s) = clean_response s"
proof (cases "list_all isspace s")
  case True
  then show ?thesis by (simp add: clean_response_blank)
next
  case False
  then have "clean_response s = join_nl (out_lines s)" by (rule clean_response_out_lines)
  moreover have "clean_response (join_nl (out_lines s)) = join_nl (out_lines s)"
    using False well_out_lines stripped_out_lines nl_free_out_lines clean_out_lines
    by (intro clean_response_fixed) auto
  ultimately show ?thesis by simp
qed

text \<open>
  Claim C2. For every input string, the cleaned text has no two blank lines in a row: no two
  neighbouring lines of the output hold whitespace only, and the output nowhere has three
  newline characters in a row.
\<close>

theorem clean_response_blank_lines:
  "\<not> (\<exists>i. Suc i < length (split_nl (clean_response s))
        \<and> list_all isspace (split_nl (clean_response s) ! i)
        \<and> list_all isspace (split_nl (clean_response s) ! Suc i))
   \<and> \<not> (\<exists>a b. clean_response s = a @ [NL, NL, NL] @ b)"
  using no_adjacent_blank [of _ s] no_triple_newline [of s] by blast

theorem clean_response_blank_lines_witness:
  "clean_response (ustr ''a\<newline>\<newline> \<newline>\<newline>\<newline>b'') = ustr ''a\<newline>\<newline>b''
   \<and> \<not> (\<exists>a b. clean_response (ustr ''a\<newline>\<newline> \<newline>\<newline>\<newline>b'') = a @ [NL, NL, NL] @ b)"
proof -
  have "clean_response (ustr ''a\<newline>\<newline> \<newline>\<newline>\<newline>b'') = ustr ''a\<newline>\<newline>b''"
    by (simp add: str_defs clean_defs)
  then show ?thesis
    using clean_response_blank_lines [of "ustr ''a\<newline>\<newline> \<newline>\<newline>\<newline>b''"] by blast
qed

text \<open>
  Claim C3. The lines of the output that hold text are, in order, the lines of the input
  that hold text, each one cleaned on its own: a line whose trimmed form begins with
  \<open>1.\<close>, \<open>2.\<close>, \<open>3.\<close>, \<open>4.\<close> or the bullet keeps its inner spacing and only loses the
  whitespace at its ends; every other line has its whitespace runs replaced by one space
  and its ends trimmed.
\<close>

theorem clean_response_lines:
  "filter (\<lambda>line. line \<noteq> []) (split_nl (clean_response s))
     = map (\<lambda>line. if is_list_line line then strip line else strip (collapse_ws line))
         (filter (\<lambda>line. \<not> list_all isspace line) (split_nl s))"
proof -
  have "clean_line = (\<lambda>line. if is_list_line line then strip line else strip (collapse_ws line))"
    by (auto simp: clean_line_def)
  then show ?thesis using clean_response_text_lines [of s] by simp
qed

theorem clean_response_lines_witness:
  "filter (\<lambda>line. line \<noteq> []) (split_nl (clean_response (ustr '' 2.  a   b \<newline>\<newline>\<newline>x   y  z '')))
     = [ustr ''2.  a   b'', ustr ''x y z'']"
  by (subst clean_response_lines) (simp add: str_defs clean_defs)

section \<open>Cost Calculator: properties\<close>



section \<open>API Client: properties\<close>







section \<open>Render Pipeline: properties\<close>

text \<open>
  Claim C8. The text \<open>before\<close>, a fenced block tagged \<open>python\<close> holding \<open>print(1)\<close>, and
  \<open>after\<close>, each on its own line, is split into three segments and rendered as prose
  \<open>before\<close>, code \<open>print(1)\<close> in language \<open>python\<close> (followed by the blank line the
  source prints after a code block), and prose \<open>after\<close>. For every input the segments,
  put together in the order they are rendered, are the input text again, and the output
  is what each segment renders, in that order.
\<close>

theorem render_response_order:
  "re_split match_fence [] (ustr ''before\<newline>```python\<newline>print(1)\<newline>```\<newline>after'')
     = [ustr ''before\<newline>'', ustr ''```python\<newline>print(1)\<newline>```'', ustr ''\<newline>after'']
   \<and> render_response (ustr ''before\<newline>```python\<newline>print(1)\<newline>```\<newline>after'')
     = [PrintMarkdown (ustr ''before'') ''blue'', PrintSyntax (ustr ''print(1)'') (ustr ''python''),
        PrintBlank, PrintMarkdown (ustr ''after'') ''blue'']
   \<and> concat (re_split match_fence [] response) = response
   \<and> render_response response = concat (map render_part (re_split match_fence [] response))"
proof -
  have 1: "re_split match_fence [] (ustr ''before\<newline>```python\<newline>print(1)\<newline>```\<newline>after'')
     = [ustr ''before\<newline>'', ustr ''```python\<newline>print(1)\<newline>```'', ustr ''\<newline>after'']"
    by (simp add: render_defs str_defs)
  have 2: "render_part (ustr ''before\<newline>'') = [PrintMarkdown (ustr ''before'') ''blue'']"
    by (simp add: render_defs str_defs clean_defs)
  have 3: "render_part (ustr ''```python\<newline>print(1)\<newline>```'')
      = [PrintSyntax (ustr ''print(1)'') (ustr ''python''), PrintBlank]"
    by (simp add: render_defs str_defs)
  have 4: "render_part (ustr ''\<newline>after'') = [PrintMarkdown (ustr ''after'') ''blue'']"
    by (simp add: render_defs str_defs clean_defs)
  show ?thesis
    by (simp add: render_response_def 1 2 3 4 concat_re_split)
qed

text \<open>
  Claim C10. A response that is a lone opening fence has no closing fence, so the split
  leaves it whole; yet it starts and ends with the triple backtick, is taken for a code
  block with an empty body, and nothing is rendered, although the Response Cleaner keeps
  its text.
\<close>

theorem render_response_lone_fence:
  "re_split match_fence [] (ustr ''```'') = [ustr ''```'']
   \<and> render_response (ustr ''```'') = []
   \<and> clean_response (ustr ''```'') = ustr ''```''"
proof -
  have 1: "re_split match_fence [] (ustr ''```'') = [ustr ''```'']"
    by (simp add: render_defs str_defs)
  have 2: "render_part (ustr ''```'') = []"
    by (simp add: render_defs str_defs)
  have 3: "clean_response (ustr ''```'') = ustr ''```''"
    by (simp add: str_defs clean_defs)
  show ?thesis by (simp add: render_response_def 1 2 3)
qed

section \<open>Interactive Loop: properties\<close>

text \<open>
  Claim C9. When the trimmed input line is \<open>exit\<close> in any mix of capital and small
  letters, the loop goes from awaiting input to the exited state, prints the prompt and
  the farewell only, and calls neither \<open>make_non_streaming_call\<close> nor
  \<open>make_streaming_call\<close>, whatever the configuration and the world outside are.
\<close>

theorem loop_exit_keyword:
  assumes "strip text \<in> {[e, x, i, t] | e x i t.
      e \<in> {69, 101} \<and> x \<in> {88, 120} \<and> i \<in> {73, 105} \<and> t \<in> {84, 116}}"
  shows "loop_step cfg stream model AwaitingInput (w, Input text)
      = (Exited, [PrintNoEnd [Lit ''[green]>>> [/green]''], Print [Lit ''[yellow]Exiting chat.[/yellow]'']])
    \<and> \<not> list_ex is_call (snd (loop_step cfg stream model AwaitingInput (w, Input text)))"
proof -
  from assms have "lower (unicode_table w) (strip text) = ustr ''exit''"
    by (auto simp: lower_def ustr_def)
  then show ?thesis by (simp add: loop_step_def turn_def)
qed

theorem loop_exit_keyword_witness:
  "loop_step default_config False (ustr ''grok-3-beta'') AwaitingInput
     (\<lparr>unicode_table = id, post_result = Inl (RequestError []), stream_wire = [],
       json_loads = Inl \<circ> JSONDecodeError\<rparr>,
      Input (ustr ''  eXiT ''))
   = (Exited, [PrintNoEnd [Lit ''[green]>>> [/green]''], Print [Lit ''[yellow]Exiting chat.[/yellow]'']])"
proof -
  have "strip (ustr ''  eXiT '') \<in> {[e, x, i, t] | e x i t.
      e \<in> {69, 101} \<and> x \<in> {88, 120} \<and> i \<in> {73, 105} \<and> t \<in> {84, 116}}"
    by (simp add: str_defs)
  from loop_exit_keyword [OF this] show ?thesis by blast
qed

end
